theory Spec2Isabelle
  imports Main
begin

section \<open>Data model\<close>

text \<open>
  The cell sets of the program are Python sets whose members are not all of one shape:
  \<^verbatim>\<open>return_neighbors\<close> starts from \<^verbatim>\<open>set(cell)\<close>, which holds the two coordinates of the
  cell as plain integers, and then adds 2-tuples. A member of a set is therefore either
  an integer or a pair of integers.
\<close>

datatype elem = Scalar int | Cell int int

text \<open>
  A Python set is modelled as a list; membership, equality and the subset test go
  through \<open>set\<close>, removal deletes every occurrence, and a \<^verbatim>\<open>for\<close> loop over the set visits
  the list from left to right. Python does not promise any iteration order; the
  universally quantified theorems below hold for every list, hence for every order in
  which the members of the starting sets may be stored.
\<close>

definition set_add :: "elem \<Rightarrow> elem list \<Rightarrow> elem list" where
  "set_add x xs = (if x \<in> set xs then xs else xs @ [x])"

definition set_diff :: "elem list \<Rightarrow> elem list \<Rightarrow> elem list" where
  "set_diff xs ys = filter (\<lambda>x. x \<notin> set ys) xs"

definition set_of_tuple :: "int \<times> int \<Rightarrow> elem list" where
  "set_of_tuple cell = set_add (Scalar (snd cell)) (set_add (Scalar (fst cell)) [])"

definition cell_elem :: "int \<times> int \<Rightarrow> elem" where
  "cell_elem cell = Cell (fst cell) (snd cell)"

subsection \<open>Sentence\<close>

record sentence =
  cells :: "elem list"
  count :: int

definition Sentence :: "elem list \<Rightarrow> int \<Rightarrow> sentence" where
  "Sentence cs c = \<lparr>cells = cs, count = c\<rparr>"

definition sentence_eq :: "sentence \<Rightarrow> sentence \<Rightarrow> bool" where
  "sentence_eq a b = (set (cells a) = set (cells b) \<and> count a = count b)"

definition known_mines :: "sentence \<Rightarrow> elem list option" where
  "known_mines s = (if count s = int (length (cells s)) then Some (cells s) else None)"

definition known_safes :: "sentence \<Rightarrow> elem list option" where
  "known_safes s = (if count s = 0 then Some (cells s) else None)"

text \<open>Truth value of \<^verbatim>\<open>if mines:\<close>: \<^verbatim>\<open>None\<close> and the empty set are both false.\<close>

definition truthy :: "elem list option \<Rightarrow> bool" where
  "truthy r = (case r of None \<Rightarrow> False | Some xs \<Rightarrow> xs \<noteq> [])"

definition members :: "elem list option \<Rightarrow> elem list" where
  "members r = (case r of None \<Rightarrow> [] | Some xs \<Rightarrow> xs)"

definition sentence_mark_mine :: "elem \<Rightarrow> sentence \<Rightarrow> sentence" where
  "sentence_mark_mine cell s =
     (if cell \<in> set (cells s)
      then s\<lparr>cells := removeAll cell (cells s), count := count s - 1\<rparr>
      else s)"

definition sentence_mark_safe :: "elem \<Rightarrow> sentence \<Rightarrow> sentence" where
  "sentence_mark_safe cell s =
     (if cell \<in> set (cells s)
      then s\<lparr>cells := removeAll cell (cells s)\<rparr>
      else s)"

subsection \<open>MinesweeperAI\<close>

record ai =
  height :: int
  width :: int
  moves_made :: "elem list"
  mines :: "elem list"
  safes :: "elem list"
  knowledge :: "sentence list"

definition init_ai :: "int \<Rightarrow> int \<Rightarrow> ai" where
  "init_ai h w =
     \<lparr>height = h, width = w, moves_made = [], mines = [], safes = [], knowledge = []\<rparr>"

definition mark_mine :: "elem \<Rightarrow> ai \<Rightarrow> ai" where
  "mark_mine cell st =
     st\<lparr>mines := set_add cell (mines st),
        knowledge := map (sentence_mark_mine cell) (knowledge st)\<rparr>"

definition mark_safe :: "elem \<Rightarrow> ai \<Rightarrow> ai" where
  "mark_safe cell st =
     st\<lparr>safes := set_add cell (safes st),
        knowledge := map (sentence_mark_safe cell) (knowledge st)\<rparr>"

text \<open>
  \<^verbatim>\<open>return_neighbors\<close>: the accumulator starts as \<^verbatim>\<open>set(cell)\<close>, and the two nested
  \<^verbatim>\<open>range\<close> loops add every board cell within one row and one column of \<^verbatim>\<open>cell\<close>.
\<close>

definition return_neighbors :: "ai \<Rightarrow> int \<times> int \<Rightarrow> elem list" where
  "return_neighbors st cell =
     fold (\<lambda>rows nb.
        fold (\<lambda>cols nb.
           if \<bar>fst cell - rows\<bar> \<le> 1 \<and> \<bar>snd cell - cols\<bar> \<le> 1 \<and> (rows, cols) \<noteq> cell
           then set_add (Cell rows cols) nb else nb)
         [0..width st - 1] nb)
      [0..height st - 1] (set_of_tuple cell)"

text \<open>
  The sentence that \<^verbatim>\<open>add_knowledge\<close> builds (the loop over \<^verbatim>\<open>neighboring_cells\<close>).
  The second test of the loop is \<^verbatim>\<open>cl not in self.mines or self.safes\<close>, which Python
  reads as \<^verbatim>\<open>(cl not in self.mines) or bool(self.safes)\<close>.
\<close>

definition new_sentence :: "ai \<Rightarrow> int \<times> int \<Rightarrow> int \<Rightarrow> sentence" where
  "new_sentence st cell cnt =
     (let (new_cells, cont) =
        fold (\<lambda>cl (new_cells, cont).
           let cont' = (if cl \<in> set (mines st) then cont - 1 else cont);
               new_cells' = (if cl \<notin> set (mines st) \<or> safes st \<noteq> []
                             then set_add cl new_cells else new_cells)
           in (new_cells', cont'))
         (return_neighbors st cell) ([], cnt)
      in Sentence new_cells cont)"

text \<open>
  \<^verbatim>\<open>list.remove\<close> with the equality of \<^verbatim>\<open>Sentence.__eq__\<close>: the first equal entry
  goes; \<open>None\<close> is the \<^verbatim>\<open>ValueError\<close> of a list with no equal entry.
\<close>

fun list_remove :: "sentence \<Rightarrow> sentence list \<Rightarrow> sentence list option" where
  "list_remove x [] = None"
| "list_remove x (y # ys) =
     (if sentence_eq y x then Some ys
      else (case list_remove x ys of None \<Rightarrow> None | Some zs \<Rightarrow> Some (y # zs)))"

text \<open>
  \<^verbatim>\<open>check_knowledge\<close> calls itself after every single marking. The recursion is modelled
  with fuel: \<open>check_knowledge n\<close> allows \<open>n\<close> nested activations and is \<open>None\<close> when
  they do not suffice. \<open>mark_loop\<close> is the loop \<^verbatim>\<open>for mn in mines: mark; check_knowledge()\<close>,
  \<open>sweep\<close> the loop over the deep copy of the knowledge, which is a snapshot that later
  markings do not change. The recursion limit of the Python interpreter is not part of
  the model.
\<close>

fun mark_loop :: "(elem \<Rightarrow> ai \<Rightarrow> ai) \<Rightarrow> (ai \<Rightarrow> ai option) \<Rightarrow> elem list \<Rightarrow> ai \<Rightarrow> ai option" where
  "mark_loop mark rec [] st = Some st"
| "mark_loop mark rec (x # xs) st =
     (case rec (mark x st) of None \<Rightarrow> None | Some st' \<Rightarrow> mark_loop mark rec xs st')"

definition purge_empty :: "sentence \<Rightarrow> ai \<Rightarrow> ai" where
  "purge_empty s st =
     (if length (cells s) = 0
      then (case list_remove s (knowledge st) of
              Some k \<Rightarrow> st\<lparr>knowledge := k\<rparr>
            | None \<Rightarrow> st)
      else st)"

definition sweep_step :: "(ai \<Rightarrow> ai option) \<Rightarrow> sentence \<Rightarrow> ai \<Rightarrow> ai option" where
  "sweep_step rec s st =
     (let st1 = purge_empty s st;
          mns = known_mines s;
          sfs = known_safes s
      in case (if truthy mns then mark_loop mark_mine rec (members mns) st1 else Some st1) of
           None \<Rightarrow> None
         | Some st2 \<Rightarrow>
             (if truthy sfs then mark_loop mark_safe rec (members sfs) st2 else Some st2))"

fun sweep :: "(ai \<Rightarrow> ai option) \<Rightarrow> sentence list \<Rightarrow> ai \<Rightarrow> ai option" where
  "sweep rec [] st = Some st"
| "sweep rec (s # ss) st =
     (case sweep_step rec s st of None \<Rightarrow> None | Some st' \<Rightarrow> sweep rec ss st')"

primrec check_knowledge :: "nat \<Rightarrow> ai \<Rightarrow> ai option" where
  "check_knowledge 0 st = None"
| "check_knowledge (Suc n) st = sweep (check_knowledge n) (knowledge st) st"

text \<open>
  \<^verbatim>\<open>inference\<close>: both loops run over the list \<^verbatim>\<open>self.knowledge\<close> itself. Its entries are
  objects that the body changes in place (the count of \<^verbatim>\<open>sentence2\<close> is overwritten by
  the chained assignment \<^verbatim>\<open>new_count = sentence2.count = sentence1.count\<close>, and the
  markings delete cells), so the body reads entries \<open>i\<close> and \<open>j\<close> of the current state.
  The list never changes its length here (\<open>inference_length\<close> below), so the indices
  stay in range.
\<close>

definition derived_sentence :: "sentence \<Rightarrow> sentence \<Rightarrow> sentence" where
  "derived_sentence sentence1 sentence2 =
     (let new_cells = set_diff (cells sentence2) (cells sentence1);
          new_count = count sentence1
      in Sentence new_cells new_count)"

definition infer_pair :: "nat \<Rightarrow> nat \<Rightarrow> ai \<Rightarrow> ai" where
  "infer_pair i j st =
     (let sentence1 = knowledge st ! i;
          sentence2 = knowledge st ! j
      in if set (cells sentence1) \<subseteq> set (cells sentence2)
         then
           (let derived = derived_sentence sentence1 sentence2;
                st1 = st\<lparr>knowledge := (knowledge st)[j := sentence2\<lparr>count := count sentence1\<rparr>]\<rparr>;
                mns = known_mines derived;
                sfs = known_safes derived;
                st2 = (if truthy mns then fold mark_mine (members mns) st1 else st1)
            in (if truthy sfs then fold mark_safe (members sfs) st2 else st2))
         else st)"

definition inference :: "ai \<Rightarrow> ai" where
  "inference st =
     (let n = length (knowledge st)
      in fold (\<lambda>i st. fold (\<lambda>j st. infer_pair i j st) [0..<n] st) [0..<n] st)"

definition with_new_sentence :: "int \<times> int \<Rightarrow> int \<Rightarrow> ai \<Rightarrow> ai" where
  "with_new_sentence cell cnt st =
     (let st1 = st\<lparr>moves_made := set_add (cell_elem cell) (moves_made st)\<rparr>;
          st2 = mark_safe (cell_elem cell) st1;
          s = new_sentence st2 cell cnt
      in if length (cells s) > 0 then st2\<lparr>knowledge := knowledge st2 @ [s]\<rparr> else st2)"

text \<open>
  The two calls that end \<^verbatim>\<open>add_knowledge\<close>: \<^verbatim>\<open>self.check_knowledge()\<close> followed by
  \<^verbatim>\<open>self.inference()\<close>.
\<close>

definition inference_pass :: "nat \<Rightarrow> ai \<Rightarrow> ai option" where
  "inference_pass n st =
     (case check_knowledge n st of None \<Rightarrow> None | Some st' \<Rightarrow> Some (inference st'))"

definition add_knowledge :: "nat \<Rightarrow> int \<times> int \<Rightarrow> int \<Rightarrow> ai \<Rightarrow> ai option" where
  "add_knowledge n cell cnt st = inference_pass n (with_new_sentence cell cnt st)"

subsection \<open>Counting the sweeps\<close>

text \<open>
  \<^verbatim>\<open>check_knowledge\<close> once more, on a state paired with a counter that every activation
  of \<^verbatim>\<open>check_knowledge\<close> (every sweep over a copy of the knowledge) increases by one. The
  states it computes are those of \<open>check_knowledge\<close> (\<open>check_knowledge_counted_fst\<close> below).
  \<open>observe_sweeps\<close> is the number of sweeps that one call of \<^verbatim>\<open>add_knowledge\<close> makes.
\<close>

fun mark_loop_counted ::
  "(elem \<Rightarrow> ai \<Rightarrow> ai) \<Rightarrow> (ai \<times> nat \<Rightarrow> (ai \<times> nat) option) \<Rightarrow> elem list \<Rightarrow> ai \<times> nat
     \<Rightarrow> (ai \<times> nat) option" where
  "mark_loop_counted mark rec [] sk = Some sk"
| "mark_loop_counted mark rec (x # xs) sk =
     (case rec (mark x (fst sk), snd sk) of
        None \<Rightarrow> None
      | Some sk' \<Rightarrow> mark_loop_counted mark rec xs sk')"

definition sweep_step_counted ::
  "(ai \<times> nat \<Rightarrow> (ai \<times> nat) option) \<Rightarrow> sentence \<Rightarrow> ai \<times> nat \<Rightarrow> (ai \<times> nat) option" where
  "sweep_step_counted rec s sk =
     (let sk1 = (purge_empty s (fst sk), snd sk);
          mns = known_mines s;
          sfs = known_safes s
      in case (if truthy mns then mark_loop_counted mark_mine rec (members mns) sk1
               else Some sk1) of
           None \<Rightarrow> None
         | Some sk2 \<Rightarrow>
             (if truthy sfs then mark_loop_counted mark_safe rec (members sfs) sk2
              else Some sk2))"

fun sweep_counted ::
  "(ai \<times> nat \<Rightarrow> (ai \<times> nat) option) \<Rightarrow> sentence list \<Rightarrow> ai \<times> nat \<Rightarrow> (ai \<times> nat) option" where
  "sweep_counted rec [] sk = Some sk"
| "sweep_counted rec (s # ss) sk =
     (case sweep_step_counted rec s sk of None \<Rightarrow> None | Some sk' \<Rightarrow> sweep_counted rec ss sk')"

primrec check_knowledge_counted :: "nat \<Rightarrow> ai \<times> nat \<Rightarrow> (ai \<times> nat) option" where
  "check_knowledge_counted 0 sk = None"
| "check_knowledge_counted (Suc n) sk =
     sweep_counted (check_knowledge_counted n) (knowledge (fst sk)) (fst sk, Suc (snd sk))"

definition observe_sweeps :: "nat \<Rightarrow> int \<times> int \<Rightarrow> int \<Rightarrow> ai \<Rightarrow> nat option" where
  "observe_sweeps n cell cnt st =
     map_option snd (check_knowledge_counted n (with_new_sentence cell cnt st, 0))"

subsection \<open>Move selection\<close>

text \<open>\<^verbatim>\<open>isinstance(cell, tuple) and len(cell) == 2\<close>\<close>

fun is_tuple2 :: "elem \<Rightarrow> bool" where
  "is_tuple2 (Cell r c) = True"
| "is_tuple2 (Scalar k) = False"

fun first_tuple :: "elem list \<Rightarrow> elem option" where
  "first_tuple [] = None"
| "first_tuple (cell # rest) = (if is_tuple2 cell then Some cell else first_tuple rest)"

definition make_safe_move :: "ai \<Rightarrow> elem option" where
  "make_safe_move st = first_tuple (set_diff (safes st) (moves_made st))"

text \<open>
  \<^verbatim>\<open>random.randrange(n)\<close> raises \<^verbatim>\<open>ValueError\<close> for \<open>n \<le> 0\<close> and otherwise returns some
  integer of \<open>{0..<n}\<close>. The generator is a parameter: \<open>tape k\<close> holds the two raw
  numbers behind the \<open>k\<close>-th attempt, and reducing them modulo \<open>n\<close> yields every sequence
  of results that \<^verbatim>\<open>randrange\<close> can produce. The loop returns its result together with
  the number of attempts it made.
\<close>

datatype error = ValueError

definition randrange :: "int \<Rightarrow> int \<Rightarrow> error + int" where
  "randrange raw n = (if n \<le> 0 then Inl ValueError else Inr (raw mod n))"

fun random_loop :: "nat \<Rightarrow> (nat \<Rightarrow> int \<times> int) \<Rightarrow> nat \<Rightarrow> ai \<Rightarrow> error + (elem option \<times> nat)" where
  "random_loop 0 tape k st = Inr (None, k)"
| "random_loop (Suc max_moves) tape k st =
     (case randrange (fst (tape k)) (height st) of
        Inl e \<Rightarrow> Inl e
      | Inr rand_row \<Rightarrow>
          (case randrange (snd (tape k)) (width st) of
             Inl e \<Rightarrow> Inl e
           | Inr rand_col \<Rightarrow>
               (let move = Cell rand_row rand_col
                in if move \<notin> set (moves_made st) \<and> move \<notin> set (mines st)
                   then Inr (Some move, Suc k)
                   else random_loop max_moves tape (Suc k) st)))"

definition make_random_move :: "(nat \<Rightarrow> int \<times> int) \<Rightarrow> ai \<Rightarrow> error + (elem option \<times> nat)" where
  "make_random_move tape st = random_loop (nat (width st * height st)) tape 0 st"

subsection \<open>Sequences of operations and reachable states\<close>

datatype operation = Observe "int \<times> int" int | MarkSafe elem | MarkMine elem

fun apply_op :: "nat \<Rightarrow> operation \<Rightarrow> ai \<Rightarrow> ai option" where
  "apply_op n (Observe cell cnt) st = add_knowledge n cell cnt st"
| "apply_op n (MarkSafe x) st = Some (mark_safe x st)"
| "apply_op n (MarkMine x) st = Some (mark_mine x st)"

fun run :: "nat \<Rightarrow> operation list \<Rightarrow> ai \<Rightarrow> ai option" where
  "run n [] st = Some st"
| "run n (op # ops) st =
     (case apply_op n op st of None \<Rightarrow> None | Some st' \<Rightarrow> run n ops st')"

definition in_bounds :: "ai \<Rightarrow> int \<times> int \<Rightarrow> bool" where
  "in_bounds st cell =
     (0 \<le> fst cell \<and> fst cell < height st \<and> 0 \<le> snd cell \<and> snd cell < width st)"

text \<open>
  The states the player can reach: a fresh knowledge base, then observations of board
  cells (with any count) and markings, in any order.
\<close>

inductive reachable :: "ai \<Rightarrow> bool" where
  fresh: "reachable (init_ai h w)"
| observe: "reachable st \<Longrightarrow> in_bounds st cell \<Longrightarrow> add_knowledge n cell cnt st = Some st'
            \<Longrightarrow> reachable st'"
| marked_safe: "reachable st \<Longrightarrow> reachable (mark_safe x st)"
| marked_mine: "reachable st \<Longrightarrow> reachable (mark_mine x st)"

subsection \<open>Notions used in the statements\<close>

text \<open>The members of all sentences of the knowledge base.\<close>

definition kb_elems :: "ai \<Rightarrow> elem set" where
  "kb_elems st = (\<Union>s \<in> set (knowledge st). set (cells s))"

text \<open>
  A sentence is settled when \<^verbatim>\<open>check_knowledge\<close> has nothing to do for it: it has cells,
  and neither \<^verbatim>\<open>known_mines\<close> nor \<^verbatim>\<open>known_safes\<close> gives a conclusion.
\<close>

definition settled :: "sentence \<Rightarrow> bool" where
  "settled s = (cells s \<noteq> [] \<and> count s \<noteq> int (length (cells s)) \<and> count s \<noteq> 0)"

definition all_settled :: "ai \<Rightarrow> bool" where
  "all_settled st = list_all settled (knowledge st)"

text \<open>
  Everything that an observation of a board cell can put into a sentence: the cells of
  the board, and the row and column numbers that \<^verbatim>\<open>set(cell)\<close> contributes.
\<close>

definition universe :: "int \<Rightarrow> int \<Rightarrow> elem set" where
  "universe h w =
     (\<lambda>(r, c). Cell r c) ` ({0..<h} \<times> {0..<w}) \<union> Scalar ` {0..<max h w}"

text \<open>
  How a state can change under the marking and inference steps: the global sets only
  gain members, the sentences only lose members, and the board keeps its size.
\<close>

definition evolves :: "ai \<Rightarrow> ai \<Rightarrow> bool" where
  "evolves st st' =
     (set (safes st) \<subseteq> set (safes st') \<and> set (mines st) \<subseteq> set (mines st')
      \<and> set (moves_made st) \<subseteq> set (moves_made st')
      \<and> kb_elems st' \<subseteq> kb_elems st
      \<and> height st' = height st \<and> width st' = width st)"

text \<open>The invariant of the reachable states that bounds the recursion.\<close>

definition within_universe :: "ai \<Rightarrow> bool" where
  "within_universe st = (kb_elems st \<subseteq> universe (height st) (width st))"

section \<open>Basic facts\<close>

text \<open>
  Marking, purging, the sweeps of \<^verbatim>\<open>check_knowledge\<close> and \<^verbatim>\<open>inference\<close> all change a state
  in the sense of \<open>evolves\<close>; the lemmas follow the structure of the program, one per
  loop.
\<close>

lemma evolves_refl: "evolves st st"
  by (simp add: evolves_def)

lemma evolves_trans: "evolves a b \<Longrightarrow> evolves b c \<Longrightarrow> evolves a c"
  unfolding evolves_def by auto

lemma set_set_add: "set (set_add x xs) = insert x (set xs)"
  by (auto simp: set_add_def)

lemma cells_sentence_mark_mine: "set (cells (sentence_mark_mine x s)) = set (cells s) - {x}"
  by (auto simp: sentence_mark_mine_def)

lemma cells_sentence_mark_safe: "set (cells (sentence_mark_safe x s)) = set (cells s) - {x}"
  by (auto simp: sentence_mark_safe_def)

lemma kb_elems_mark_mine: "kb_elems (mark_mine x st) = kb_elems st - {x}"
  by (auto simp: kb_elems_def mark_mine_def cells_sentence_mark_mine)

lemma kb_elems_mark_safe: "kb_elems (mark_safe x st) = kb_elems st - {x}"
  by (auto simp: kb_elems_def mark_safe_def cells_sentence_mark_safe)

lemma evolves_mark_mine: "evolves st (mark_mine x st)"
  unfolding evolves_def kb_elems_mark_mine
  by (auto simp: mark_mine_def set_set_add)

lemma evolves_mark_safe: "evolves st (mark_safe x st)"
  unfolding evolves_def kb_elems_mark_safe
  by (auto simp: mark_safe_def set_set_add)

lemma list_remove_elems:
  "list_remove x ys = Some zs \<Longrightarrow> cells x = [] \<Longrightarrow>
     (\<Union>s \<in> set zs. set (cells s)) = (\<Union>s \<in> set ys. set (cells s))"
proof (induction ys arbitrary: zs)
  case Nil
  then show ?case by simp
next
  case (Cons y ys)
  show ?case
  proof (cases "sentence_eq y x")
    case True
    then have "set (cells y) = {}" using Cons.prems(2) by (simp add: sentence_eq_def)
    moreover have "zs = ys" using Cons.prems(1) True by simp
    ultimately show ?thesis by simp
  next
    case False
    then obtain zs' where z: "list_remove x ys = Some zs'" "zs = y # zs'"
      using Cons.prems(1) by (auto split: option.splits)
    from Cons.IH [OF z(1) Cons.prems(2)] z(2) show ?thesis by simp
  qed
qed

lemma kb_elems_purge_empty: "kb_elems (purge_empty s st) = kb_elems st"
proof (cases "cells s = []")
  case True
  show ?thesis
  proof (cases "list_remove s (knowledge st)")
    case None
    then show ?thesis using True by (simp add: purge_empty_def)
  next
    case (Some k)
    from list_remove_elems [OF Some True] show ?thesis
      using True Some by (simp add: purge_empty_def kb_elems_def)
  qed
next
  case False
  then show ?thesis by (simp add: purge_empty_def)
qed

lemma evolves_purge_empty: "evolves st (purge_empty s st)"
  unfolding evolves_def kb_elems_purge_empty
  by (auto simp: purge_empty_def split: option.splits)

lemma evolves_mark_loop:
  assumes rec: "\<And>s s'. rec s = Some s' \<Longrightarrow> evolves s s'"
    and mark: "\<And>x s. evolves s (mark x s)"
  shows "mark_loop mark rec xs st = Some st' \<Longrightarrow> evolves st st'"
proof (induction xs arbitrary: st)
  case Nil
  then show ?case by (simp add: evolves_refl)
next
  case (Cons x xs)
  then obtain st1 where s1: "rec (mark x st) = Some st1" "mark_loop mark rec xs st1 = Some st'"
    by (auto split: option.splits)
  have "evolves st (mark x st)" by (rule mark)
  moreover have "evolves (mark x st) st1" using s1(1) by (rule rec)
  moreover have "evolves st1 st'" using s1(2) by (rule Cons.IH)
  ultimately show ?case by (blast intro: evolves_trans)
qed

lemma evolves_sweep_step:
  assumes rec: "\<And>s s'. rec s = Some s' \<Longrightarrow> evolves s s'"
    and step: "sweep_step rec s st = Some st'"
  shows "evolves st st'"
proof -
  let ?st1 = "purge_empty s st"
  obtain st2 where
    a: "(if truthy (known_mines s) then mark_loop mark_mine rec (members (known_mines s)) ?st1
         else Some ?st1) = Some st2"
    and b: "(if truthy (known_safes s) then mark_loop mark_safe rec (members (known_safes s)) st2
         else Some st2) = Some st'"
    using step unfolding sweep_step_def Let_def by (auto split: option.splits)
  have "evolves ?st1 st2"
    using a evolves_mark_loop [of rec mark_mine, OF rec evolves_mark_mine]
    by (auto simp: evolves_refl split: if_splits)
  moreover have "evolves st2 st'"
    using b evolves_mark_loop [of rec mark_safe, OF rec evolves_mark_safe]
    by (auto simp: evolves_refl split: if_splits)
  ultimately show ?thesis
    using evolves_purge_empty [of st s] by (blast intro: evolves_trans)
qed

lemma evolves_sweep:
  assumes rec: "\<And>s s'. rec s = Some s' \<Longrightarrow> evolves s s'"
  shows "sweep rec ss st = Some st' \<Longrightarrow> evolves st st'"
proof (induction ss arbitrary: st)
  case Nil
  then show ?case by (simp add: evolves_refl)
next
  case (Cons s ss)
  then obtain st1 where s1: "sweep_step rec s st = Some st1" "sweep rec ss st1 = Some st'"
    by (auto split: option.splits)
  from evolves_sweep_step [OF rec s1(1)] Cons.IH [OF s1(2)] show ?case
    by (blast intro: evolves_trans)
qed

lemma evolves_check_knowledge: "check_knowledge n st = Some st' \<Longrightarrow> evolves st st'"
proof (induction n arbitrary: st st')
  case 0
  then show ?case by simp
next
  case (Suc n)
  from Suc.prems have "sweep (check_knowledge n) (knowledge st) st = Some st'" by simp
  then show ?case using Suc.IH by (rule evolves_sweep [rotated])
qed

lemma evolves_fold:
  assumes "\<And>x s. evolves s (f x s)"
  shows "evolves st (fold f xs st)"
proof (induction xs arbitrary: st)
  case Nil
  show ?case by (simp add: evolves_refl)
next
  case (Cons x xs)
  have "evolves st (f x st)" by (rule assms)
  moreover have "evolves (f x st) (fold f xs (f x st))" by (rule Cons.IH)
  ultimately show ?case by (auto intro: evolves_trans)
qed

lemma evolves_set_count:
  "evolves st (st\<lparr>knowledge := (knowledge st)[j := (knowledge st ! j)\<lparr>count := c\<rparr>]\<rparr>)"
proof -
  have "set (cells s) \<subseteq> kb_elems st"
    if "s \<in> set ((knowledge st)[j := (knowledge st ! j)\<lparr>count := c\<rparr>])" for s
  proof (cases "j < length (knowledge st)")
    case True
    from that have "s = (knowledge st ! j)\<lparr>count := c\<rparr> \<or> s \<in> set (knowledge st)"
      using set_update_subset_insert [of "knowledge st" j] by auto
    moreover have "knowledge st ! j \<in> set (knowledge st)" using True by simp
    ultimately show ?thesis unfolding kb_elems_def by auto
  next
    case False
    then have "(knowledge st)[j := (knowledge st ! j)\<lparr>count := c\<rparr>] = knowledge st"
      by (simp add: list_update_beyond)
    then show ?thesis using that unfolding kb_elems_def by auto
  qed
  then show ?thesis by (auto simp: evolves_def kb_elems_def)
qed

lemma evolves_infer_pair: "evolves st (infer_pair i j st)"
proof -
  let ?st1 = "st\<lparr>knowledge := (knowledge st)[j := (knowledge st ! j)\<lparr>count := count (knowledge st ! i)\<rparr>]\<rparr>"
  let ?d = "derived_sentence (knowledge st ! i) (knowledge st ! j)"
  let ?st2 = "if truthy (known_mines ?d) then fold mark_mine (members (known_mines ?d)) ?st1 else ?st1"
  let ?st3 = "if truthy (known_safes ?d) then fold mark_safe (members (known_safes ?d)) ?st2 else ?st2"
  have 1: "evolves st ?st1" by (rule evolves_set_count)
  have 2: "evolves ?st1 ?st2"
    using evolves_fold [of mark_mine, OF evolves_mark_mine] by (simp add: evolves_refl)
  have 3: "evolves ?st2 ?st3"
    using evolves_fold [of mark_safe, OF evolves_mark_safe] by (simp add: evolves_refl)
  have "evolves st ?st3" using 1 2 3 by (blast intro: evolves_trans)
  then show ?thesis
    unfolding infer_pair_def Let_def by (simp add: evolves_refl)
qed

lemma evolves_inference: "evolves st (inference st)"
  unfolding inference_def Let_def
  by (intro evolves_fold evolves_infer_pair)

lemma evolves_inference_pass: "inference_pass n st = Some st' \<Longrightarrow> evolves st st'"
  unfolding inference_pass_def
  by (auto split: option.splits intro: evolves_trans evolves_inference dest: evolves_check_knowledge)

lemma length_fold:
  assumes "\<And>x s. length (knowledge (f x s)) = length (knowledge s)"
  shows "length (knowledge (fold f xs st)) = length (knowledge st)"
  by (induction xs arbitrary: st) (simp_all add: assms)

lemma length_mark_mine: "length (knowledge (mark_mine x st)) = length (knowledge st)"
  by (simp add: mark_mine_def)

lemma length_mark_safe: "length (knowledge (mark_safe x st)) = length (knowledge st)"
  by (simp add: mark_safe_def)

lemma length_infer_pair: "length (knowledge (infer_pair i j st)) = length (knowledge st)"
  unfolding infer_pair_def Let_def
  by (simp add: length_fold [of mark_mine, OF length_mark_mine]
      length_fold [of mark_safe, OF length_mark_safe])

lemma inference_length: "length (knowledge (inference st)) = length (knowledge st)"
  unfolding inference_def Let_def
  by (intro length_fold length_infer_pair)

section \<open>Neighbours\<close>

text \<open>
  C3 (fails on the code). The neighbours of a board cell should be exactly the board
  cells at Chebyshev distance 1. For the centre of a 3 by 3 board the program returns
  nine members instead of eight: the eight surrounding cells and the integer 1, which
  \<^verbatim>\<open>set(cell)\<close> left in the set.
\<close>

theorem return_neighbors_centre:
  "return_neighbors (init_ai 3 3) (1, 1) =
     [Scalar 1, Cell 0 0, Cell 0 1, Cell 0 2, Cell 1 0, Cell 1 2, Cell 2 0, Cell 2 1, Cell 2 2]"
  by code_simp

text \<open>
  In general the two coordinates of the cell are always among its neighbours.
\<close>

lemma fold_cols_keeps:
  "x \<in> set nb \<Longrightarrow>
   x \<in> set (fold (\<lambda>cols nb. if Q cols then set_add (Cell r cols) nb else nb) cs nb)"
  by (induction cs arbitrary: nb) (simp_all add: set_set_add)

lemma fold_rows_keeps:
  "x \<in> set nb \<Longrightarrow>
   x \<in> set (fold (\<lambda>rows nb. fold (\<lambda>cols nb. if Q rows cols then set_add (Cell rows cols) nb else nb) cs nb) rs nb)"
  by (induction rs arbitrary: nb) (simp_all add: fold_cols_keeps)

lemma return_neighbors_has_scalars:
  "Scalar (fst cell) \<in> set (return_neighbors st cell)
   \<and> Scalar (snd cell) \<in> set (return_neighbors st cell)"
  unfolding return_neighbors_def
  by (intro conjI fold_rows_keeps) (simp_all add: set_of_tuple_def set_set_add)

section \<open>The new sentence of an observation\<close>

text \<open>
  C4 (fails on the code). The sentence built by \<^verbatim>\<open>add_knowledge\<close> should hold only the
  neighbours of unknown status. On a 3 by 3 board where (0,0) is known safe and (0,1) is
  a known mine, observing (1,1) with count 2 builds a sentence that still holds both
  cells (and the integer 1); only the count is lowered for the mine.
\<close>

theorem new_sentence_keeps_known_cells:
  "with_new_sentence (1, 1) 2 (mark_mine (Cell 0 1) (mark_safe (Cell 0 0) (init_ai 3 3))) =
     \<lparr>height = 3, width = 3, moves_made = [Cell 1 1], mines = [Cell 0 1],
      safes = [Cell 0 0, Cell 1 1],
      knowledge =
        [\<lparr>cells = [Scalar 1, Cell 0 0, Cell 0 1, Cell 0 2, Cell 1 0, Cell 1 2,
                   Cell 2 0, Cell 2 1, Cell 2 2],
          count = 1\<rparr>]\<rparr>"
  by code_simp

text \<open>
  In general, once \<open>safes\<close> is not empty (and \<^verbatim>\<open>add_knowledge\<close> has just put the observed
  cell there), the new sentence holds every neighbour, whatever is known about it.
\<close>

lemma new_sentence_fold_all:
  "set (fst (fold (\<lambda>cl (new_cells, cont).
           (set_add cl new_cells, if cl \<in> M then cont - 1 else cont)) xs acc))
     = set (fst acc) \<union> set xs"
proof (induction xs arbitrary: acc)
  case Nil
  show ?case by simp
next
  case (Cons x xs)
  show ?case
    by (cases acc) (simp add: Cons.IH set_set_add)
qed

lemma new_sentence_all_neighbors:
  assumes "safes st \<noteq> []"
  shows "set (cells (new_sentence st cell cnt)) = set (return_neighbors st cell)"
proof -
  have "cells (new_sentence st cell cnt) = fst (fold (\<lambda>cl (new_cells, cont).
           (set_add cl new_cells, if cl \<in> set (mines st) then cont - 1 else cont))
         (return_neighbors st cell) ([], cnt))"
    using assms by (simp add: new_sentence_def Sentence_def split: prod.splits)
  then show ?thesis
    using new_sentence_fold_all [of "set (mines st)" "return_neighbors st cell" "([], cnt)"]
    by simp
qed

section \<open>Subset inference\<close>

text \<open>
  C1 (fails on the code). From \<open>{A,B,C} = 1\<close> and \<open>{A,B} = 1\<close> the subset rule should
  derive \<open>{C} = 0\<close> and mark \<open>C\<close> safe. With A = (0,0), B = (0,1), C = (0,2) the program
  derives \<open>{C} = 1\<close>, the count of the smaller sentence, and marks \<open>C\<close> as a mine; no cell
  becomes safe.
\<close>

theorem inference_marks_remainder_as_mine:
  "derived_sentence (Sentence [Cell 0 0, Cell 0 1] 1) (Sentence [Cell 0 0, Cell 0 1, Cell 0 2] 1)
     = Sentence [Cell 0 2] 1
   \<and> inference ((init_ai 1 3)\<lparr>knowledge :=
          [Sentence [Cell 0 0, Cell 0 1, Cell 0 2] 1, Sentence [Cell 0 0, Cell 0 1] 1]\<rparr>)
     = \<lparr>height = 1, width = 3, moves_made = [], mines = [Cell 0 2], safes = [],
        knowledge = [\<lparr>cells = [Cell 0 0, Cell 0 1], count = 0\<rparr>,
                     \<lparr>cells = [Cell 0 0, Cell 0 1], count = 1\<rparr>]\<rparr>"
  by code_simp

text \<open>In general the derived count is the count of the smaller sentence.\<close>

lemma count_derived_sentence: "count (derived_sentence sentence1 sentence2) = count sentence1"
  by (simp add: derived_sentence_def Sentence_def)

text \<open>
  C5 (fails on the code). A derived sentence with cells that is not yet in the knowledge
  base should be added to it. From \<open>{A,B} = 1\<close> and \<open>{A,B,C,D} = 2\<close> on a 1 by 4 board the
  program derives \<open>{C,D} = 1\<close>, which gives no conclusion and is dropped: the knowledge
  base still has its two sentences afterwards (the count of the second one overwritten).
\<close>

theorem inference_drops_derived_sentence:
  "derived_sentence (Sentence [Cell 0 0, Cell 0 1] 1)
       (Sentence [Cell 0 0, Cell 0 1, Cell 0 2, Cell 0 3] 2)
     = Sentence [Cell 0 2, Cell 0 3] 1
   \<and> inference ((init_ai 1 4)\<lparr>knowledge :=
          [Sentence [Cell 0 0, Cell 0 1] 1, Sentence [Cell 0 0, Cell 0 1, Cell 0 2, Cell 0 3] 2]\<rparr>)
     = \<lparr>height = 1, width = 4, moves_made = [], mines = [], safes = [],
        knowledge = [\<lparr>cells = [Cell 0 0, Cell 0 1], count = 1\<rparr>,
                     \<lparr>cells = [Cell 0 0, Cell 0 1, Cell 0 2, Cell 0 3], count = 1\<rparr>]\<rparr>"
  by code_simp

section \<open>Invariants of the knowledge base\<close>

text \<open>
  C2 (fails on the code). After an observation no sentence should hold a cell that is
  known safe. On a 1 by 3 board whose only mine is (0,2), observing (0,0) with count 0
  and then (0,1) with count 1 leaves a sentence that holds (0,0) and the integer 0, both
  of which are in \<open>safes\<close>.
\<close>

theorem observe_leaves_safe_cell_in_sentence:
  "run 5 [Observe (0, 0) 0, Observe (0, 1) 1] (init_ai 1 3) =
     Some \<lparr>height = 1, width = 3, moves_made = [Cell 0 0, Cell 0 1], mines = [],
           safes = [Cell 0 0, Scalar 0, Cell 0 1],
           knowledge = [\<lparr>cells = [Scalar 0, Scalar 1, Cell 0 0, Cell 0 2], count = 1\<rparr>]\<rparr>"
  by code_simp

text \<open>
  The same happens with truthful observations only: on a 2 by 2 board whose only mine is
  (1,1), observing (0,0), (0,1) and (1,0), each with count 1, ends with the safe cell (0,1)
  in \<open>mines\<close> as well as in \<open>safes\<close>.
\<close>

lemma observe_marks_safe_cell_as_mine:
  "run 5 [Observe (0, 0) 1, Observe (0, 1) 1, Observe (1, 0) 1] (init_ai 2 2) =
     Some \<lparr>height = 2, width = 2, moves_made = [Cell 0 0, Cell 0 1, Cell 1 0],
           mines = [Cell 0 1], safes = [Cell 0 0, Cell 0 1, Cell 1 0],
           knowledge =
             [\<lparr>cells = [Scalar 0, Cell 1 1], count = 1\<rparr>,
              \<lparr>cells = [Scalar 0, Scalar 1, Cell 0 0, Cell 1 1], count = 0\<rparr>,
              \<lparr>cells = [Scalar 1, Scalar 0, Cell 0 0, Cell 1 1], count = 0\<rparr>]\<rparr>"
  by code_simp

section \<open>Termination of the recursion in \<^verbatim>\<open>check_knowledge\<close>\<close>

text \<open>
  The measure is the number of distinct members of the sentences. A sweep starts from a
  snapshot that equals the knowledge base, so its first marking removes a member that
  some sentence still holds; from then on every nested call starts from a smaller
  knowledge base than the sweep did.
\<close>

lemma finite_kb_elems: "finite (kb_elems st)"
  by (simp add: kb_elems_def)

lemma card_evolves: "evolves a b \<Longrightarrow> card (kb_elems b) \<le> card (kb_elems a)"
  by (simp add: evolves_def card_mono finite_kb_elems)

lemma card_remove_elem: "x \<in> kb_elems st \<Longrightarrow> card (kb_elems st - {x}) < card (kb_elems st)"
  using card_Diff1_less [OF finite_kb_elems, of x st] by blast

lemma truthy_known_mines: "truthy (known_mines s) \<Longrightarrow> members (known_mines s) = cells s \<and> cells s \<noteq> []"
  by (auto simp: truthy_def members_def known_mines_def split: if_splits)

lemma truthy_known_safes: "truthy (known_safes s) \<Longrightarrow> members (known_safes s) = cells s \<and> cells s \<noteq> []"
  by (auto simp: truthy_def members_def known_safes_def split: if_splits)

lemma mark_loop_defined:
  assumes rec_def: "\<And>s. card (kb_elems s) < n \<Longrightarrow> \<exists>s'. rec s = Some s'"
    and rec_ev: "\<And>s s'. rec s = Some s' \<Longrightarrow> evolves s s'"
    and mark: "\<And>x s. evolves s (mark x s)"
  shows "card (kb_elems st) < n \<Longrightarrow> \<exists>st'. mark_loop mark rec xs st = Some st'"
proof (induction xs arbitrary: st)
  case Nil
  show ?case by simp
next
  case (Cons x xs)
  have "card (kb_elems (mark x st)) < n"
    using card_evolves [OF mark [of st x]] Cons.prems by simp
  then obtain s1 where s1: "rec (mark x st) = Some s1" using rec_def by blast
  have "card (kb_elems s1) < n"
    using card_evolves [OF rec_ev [OF s1]] \<open>card (kb_elems (mark x st)) < n\<close> by simp
  from Cons.IH [OF this] show ?case using s1 by simp
qed

lemma mark_loop_defined_first:
  assumes rec_def: "\<And>s. card (kb_elems s) < n \<Longrightarrow> \<exists>s'. rec s = Some s'"
    and rec_ev: "\<And>s s'. rec s = Some s' \<Longrightarrow> evolves s s'"
    and mark: "\<And>x s. evolves s (mark x s)"
    and removes: "\<And>x s. kb_elems (mark x s) = kb_elems s - {x}"
    and le: "card (kb_elems st) \<le> n"
    and ne: "xs \<noteq> []"
    and live: "set xs \<subseteq> kb_elems st"
  shows "\<exists>st'. mark_loop mark rec xs st = Some st' \<and> card (kb_elems st') < n"
proof -
  obtain x rest where xs: "xs = x # rest" using ne by (cases xs) auto
  then have "x \<in> kb_elems st" using live by simp
  then have c: "card (kb_elems (mark x st)) < n"
    using card_remove_elem [of x st] le by (simp add: removes)
  then obtain s1 where s1: "rec (mark x st) = Some s1" using rec_def by blast
  have c1: "card (kb_elems s1) < n"
    using card_evolves [OF rec_ev [OF s1]] c by simp
  from mark_loop_defined [of n rec mark, OF rec_def rec_ev mark c1]
  obtain st' where st': "mark_loop mark rec rest s1 = Some st'" by blast
  have "evolves s1 st'"
    using evolves_mark_loop [of rec mark rest s1 st', OF rec_ev mark st'] .
  then have "card (kb_elems st') < n" using card_evolves c1 by fastforce
  then show ?thesis using xs s1 st' by simp
qed

lemma sweep_step_defined:
  assumes rec_def: "\<And>s. card (kb_elems s) < n \<Longrightarrow> \<exists>s'. rec s = Some s'"
    and rec_ev: "\<And>s s'. rec s = Some s' \<Longrightarrow> evolves s s'"
    and lt: "card (kb_elems st) < n"
  shows "\<exists>st'. sweep_step rec s st = Some st'"
proof -
  let ?st1 = "purge_empty s st"
  have c1: "card (kb_elems ?st1) < n" using lt by (simp add: kb_elems_purge_empty)
  obtain st2 where a: "(if truthy (known_mines s)
        then mark_loop mark_mine rec (members (known_mines s)) ?st1 else Some ?st1) = Some st2"
    using mark_loop_defined [of n rec mark_mine, OF rec_def rec_ev evolves_mark_mine c1]
    by (cases "truthy (known_mines s)") auto
  have "evolves ?st1 st2"
    using a evolves_mark_loop [of rec mark_mine, OF rec_ev evolves_mark_mine]
    by (auto simp: evolves_refl split: if_splits)
  then have c2: "card (kb_elems st2) < n" using card_evolves c1 by fastforce
  obtain st3 where b: "(if truthy (known_safes s)
        then mark_loop mark_safe rec (members (known_safes s)) st2 else Some st2) = Some st3"
    using mark_loop_defined [of n rec mark_safe, OF rec_def rec_ev evolves_mark_safe c2]
    by (cases "truthy (known_safes s)") auto
  show ?thesis using a b by (simp add: sweep_step_def Let_def)
qed

lemma sweep_defined:
  assumes rec_def: "\<And>s. card (kb_elems s) < n \<Longrightarrow> \<exists>s'. rec s = Some s'"
    and rec_ev: "\<And>s s'. rec s = Some s' \<Longrightarrow> evolves s s'"
  shows "card (kb_elems st) < n \<Longrightarrow> \<exists>st'. sweep rec ss st = Some st'"
proof (induction ss arbitrary: st)
  case Nil
  show ?case by simp
next
  case (Cons s ss)
  from sweep_step_defined [of n rec, OF rec_def rec_ev Cons.prems]
  obtain st1 where s1: "sweep_step rec s st = Some st1" by blast
  have "evolves st st1" using rec_ev s1 by (rule evolves_sweep_step)
  then have "card (kb_elems st1) < n" using card_evolves Cons.prems by fastforce
  from Cons.IH [OF this] show ?case using s1 by simp
qed

lemma sweep_defined_first:
  assumes rec_def: "\<And>s. card (kb_elems s) < n \<Longrightarrow> \<exists>s'. rec s = Some s'"
    and rec_ev: "\<And>s s'. rec s = Some s' \<Longrightarrow> evolves s s'"
  shows "card (kb_elems st) \<le> n \<Longrightarrow> \<forall>s \<in> set ss. set (cells s) \<subseteq> kb_elems st
          \<Longrightarrow> \<exists>st'. sweep rec ss st = Some st'"
proof (induction ss arbitrary: st)
  case Nil
  show ?case by simp
next
  case (Cons s ss)
  let ?st1 = "purge_empty s st"
  have k1: "kb_elems ?st1 = kb_elems st" by (rule kb_elems_purge_empty)
  have le1: "card (kb_elems ?st1) \<le> n" using Cons.prems(1) by (simp add: k1)
  have live: "set (cells s) \<subseteq> kb_elems ?st1" using Cons.prems(2) by (simp add: k1)
  show ?case
  proof (cases "truthy (known_mines s) \<or> truthy (known_safes s)")
    case False
    then have s1: "sweep_step rec s st = Some ?st1" by (simp add: sweep_step_def Let_def)
    have "\<forall>s' \<in> set ss. set (cells s') \<subseteq> kb_elems ?st1" using Cons.prems(2) by (simp add: k1)
    from Cons.IH [OF le1 this] show ?thesis using s1 by simp
  next
    case True
    have "\<exists>st1. sweep_step rec s st = Some st1 \<and> card (kb_elems st1) < n"
    proof (cases "truthy (known_mines s)")
      case mn: True
      then have m: "members (known_mines s) = cells s" "cells s \<noteq> []"
        using truthy_known_mines by auto
      from mark_loop_defined_first [of n rec mark_mine ?st1 "cells s",
          OF rec_def rec_ev evolves_mark_mine kb_elems_mark_mine le1 m(2) live]
      obtain st2 where st2: "mark_loop mark_mine rec (cells s) ?st1 = Some st2"
        "card (kb_elems st2) < n" by blast
      obtain st3 where b: "(if truthy (known_safes s)
          then mark_loop mark_safe rec (members (known_safes s)) st2 else Some st2) = Some st3"
        using mark_loop_defined [of n rec mark_safe, OF rec_def rec_ev evolves_mark_safe st2(2)]
        by (cases "truthy (known_safes s)") auto
      have "evolves st2 st3"
        using b evolves_mark_loop [of rec mark_safe, OF rec_ev evolves_mark_safe]
        by (auto simp: evolves_refl split: if_splits)
      then have "card (kb_elems st3) < n" using card_evolves st2(2) by fastforce
      moreover have "sweep_step rec s st = Some st3"
        using mn m st2(1) b by (simp add: sweep_step_def Let_def)
      ultimately show ?thesis by blast
    next
      case nomn: False
      then have sf: "truthy (known_safes s)" using True by simp
      then have m: "members (known_safes s) = cells s" "cells s \<noteq> []"
        using truthy_known_safes by auto
      from mark_loop_defined_first [of n rec mark_safe ?st1 "cells s",
          OF rec_def rec_ev evolves_mark_safe kb_elems_mark_safe le1 m(2) live]
      obtain st3 where st3: "mark_loop mark_safe rec (cells s) ?st1 = Some st3"
        "card (kb_elems st3) < n" by blast
      have "sweep_step rec s st = Some st3"
        using nomn sf m st3(1) by (simp add: sweep_step_def Let_def)
      then show ?thesis using st3(2) by blast
    qed
    then obtain st1 where s1: "sweep_step rec s st = Some st1" "card (kb_elems st1) < n"
      by blast
    from sweep_defined [of n rec, OF rec_def rec_ev s1(2)]
    obtain st' where "sweep rec ss st1 = Some st'" by blast
    then show ?thesis using s1(1) by simp
  qed
qed

lemma check_knowledge_defined:
  "card (kb_elems st) < n \<Longrightarrow> \<exists>st'. check_knowledge n st = Some st'"
proof (induction n arbitrary: st)
  case 0
  then show ?case by simp
next
  case (Suc n)
  have le: "card (kb_elems st) \<le> n" using Suc.prems by simp
  have live: "\<forall>s \<in> set (knowledge st). set (cells s) \<subseteq> kb_elems st"
    by (auto simp: kb_elems_def)
  have "\<exists>st'. sweep (check_knowledge n) (knowledge st) st = Some st'"
    using Suc.IH evolves_check_knowledge le live
    by (rule sweep_defined_first [where n = n])
  then show ?case by simp
qed

lemma add_knowledge_defined:
  "card (kb_elems (with_new_sentence cell cnt st)) < n \<Longrightarrow> \<exists>st'. add_knowledge n cell cnt st = Some st'"
  using check_knowledge_defined [of "with_new_sentence cell cnt st" n]
  by (auto simp: add_knowledge_def inference_pass_def)

lemma fold_cols_elems:
  "x \<in> set (fold (\<lambda>cols nb. if Q cols then set_add (Cell r cols) nb else nb) cs nb)
   \<Longrightarrow> x \<in> set nb \<or> (\<exists>c \<in> set cs. Q c \<and> x = Cell r c)"
proof (induction cs arbitrary: nb)
  case Nil
  then show ?case by simp
next
  case (Cons c cs)
  from Cons.IH [OF Cons.prems [simplified]] show ?case
    by (auto simp: set_set_add split: if_splits)
qed

lemma fold_rows_elems:
  "x \<in> set (fold (\<lambda>rows nb. fold (\<lambda>cols nb. if Q rows cols then set_add (Cell rows cols) nb else nb) cs nb) rs nb)
   \<Longrightarrow> x \<in> set nb \<or> (\<exists>r \<in> set rs. \<exists>c \<in> set cs. Q r c \<and> x = Cell r c)"
proof (induction rs arbitrary: nb)
  case Nil
  then show ?case by simp
next
  case (Cons r rs)
  from Cons.IH [OF Cons.prems [simplified]]
  show ?case using fold_cols_elems [of x "Q r" r cs nb] by auto
qed

lemma return_neighbors_elems:
  assumes "x \<in> set (return_neighbors st cell)"
  shows "x = Scalar (fst cell) \<or> x = Scalar (snd cell)
     \<or> (\<exists>r c. x = Cell r c \<and> 0 \<le> r \<and> r < height st \<and> 0 \<le> c \<and> c < width st \<and> (r, c) \<noteq> cell)"
proof -
  from assms have "x \<in> set (set_of_tuple cell)
     \<or> (\<exists>r \<in> set [0..height st - 1]. \<exists>c \<in> set [0..width st - 1].
          (\<bar>fst cell - r\<bar> \<le> 1 \<and> \<bar>snd cell - c\<bar> \<le> 1 \<and> (r, c) \<noteq> cell) \<and> x = Cell r c)"
    unfolding return_neighbors_def
    by (rule fold_rows_elems [where Q = "\<lambda>r c. \<bar>fst cell - r\<bar> \<le> 1 \<and> \<bar>snd cell - c\<bar> \<le> 1 \<and> (r, c) \<noteq> cell"])
  then show ?thesis
    by (auto simp: set_of_tuple_def set_set_add)
qed

lemma return_neighbors_universe:
  assumes "in_bounds st cell"
  shows "set (return_neighbors st cell) \<subseteq> universe (height st) (width st) - {cell_elem cell}"
proof
  fix x assume "x \<in> set (return_neighbors st cell)"
  from return_neighbors_elems [OF this] assms
  show "x \<in> universe (height st) (width st) - {cell_elem cell}"
    by (cases cell) (auto simp: universe_def in_bounds_def cell_elem_def)
qed

lemma new_sentence_fold_elems:
  "set (fst (fold (\<lambda>cl (new_cells, cont).
           let cont' = (if cl \<in> M then cont - 1 else cont);
               new_cells' = (if P cl then set_add cl new_cells else new_cells)
           in (new_cells', cont')) xs acc)) \<subseteq> set (fst acc) \<union> set xs"
proof (induction xs arbitrary: acc)
  case Nil
  show ?case by simp
next
  case (Cons x xs)
  show ?case
    using Cons.IH [of "(\<lambda>cl (new_cells, cont).
           let cont' = (if cl \<in> M then cont - 1 else cont);
               new_cells' = (if P cl then set_add cl new_cells else new_cells)
           in (new_cells', cont')) x acc"]
    by (cases acc) (auto simp: Let_def set_set_add split: if_splits)
qed

lemma cells_new_sentence: "set (cells (new_sentence st cell cnt)) \<subseteq> set (return_neighbors st cell)"
proof -
  let ?f = "\<lambda>cl (new_cells, cont).
           let cont' = (if cl \<in> set (mines st) then cont - 1 else cont);
               new_cells' = (if cl \<notin> set (mines st) \<or> safes st \<noteq> []
                             then set_add cl new_cells else new_cells)
           in (new_cells', cont')"
  have "cells (new_sentence st cell cnt) = fst (fold ?f (return_neighbors st cell) ([], cnt))"
    by (simp add: new_sentence_def Sentence_def split: prod.splits)
  then show ?thesis
    using new_sentence_fold_elems [of "set (mines st)" "\<lambda>cl. cl \<notin> set (mines st) \<or> safes st \<noteq> []"
        "return_neighbors st cell" "([], cnt)"]
    by simp
qed

lemma return_neighbors_cong:
  "height a = height b \<Longrightarrow> width a = width b \<Longrightarrow> return_neighbors a cell = return_neighbors b cell"
  by (simp add: return_neighbors_def)

lemma with_new_sentence_dims:
  "height (with_new_sentence cell cnt st) = height st \<and> width (with_new_sentence cell cnt st) = width st"
  by (simp add: with_new_sentence_def Let_def mark_safe_def)

lemma kb_elems_with_new_sentence:
  "kb_elems (with_new_sentence cell cnt st)
     \<subseteq> (kb_elems st - {cell_elem cell}) \<union> set (return_neighbors st cell)"
proof -
  let ?st1 = "st\<lparr>moves_made := set_add (cell_elem cell) (moves_made st)\<rparr>"
  let ?st2 = "mark_safe (cell_elem cell) ?st1"
  have k2: "kb_elems ?st2 = kb_elems st - {cell_elem cell}"
    by (simp add: kb_elems_mark_safe) (simp add: kb_elems_def)
  have "return_neighbors ?st2 cell = return_neighbors st cell"
    by (rule return_neighbors_cong) (simp_all add: mark_safe_def)
  then have n: "set (cells (new_sentence ?st2 cell cnt)) \<subseteq> set (return_neighbors st cell)"
    using cells_new_sentence [of ?st2 cell cnt] by simp
  have "kb_elems (?st2\<lparr>knowledge := knowledge ?st2 @ [new_sentence ?st2 cell cnt]\<rparr>)
          = kb_elems ?st2 \<union> set (cells (new_sentence ?st2 cell cnt))"
    by (auto simp: kb_elems_def)
  then show ?thesis
    using k2 n unfolding with_new_sentence_def Let_def by auto
qed

lemma within_universe_evolves: "within_universe a \<Longrightarrow> evolves a b \<Longrightarrow> within_universe b"
  by (auto simp: within_universe_def evolves_def)

lemma within_universe_with_new_sentence:
  assumes "within_universe st" "in_bounds st cell"
  shows "kb_elems (with_new_sentence cell cnt st) \<subseteq> universe (height st) (width st) - {cell_elem cell}"
  using kb_elems_with_new_sentence [of cell cnt st] return_neighbors_universe [OF assms(2)] assms(1)
  unfolding within_universe_def by blast

lemma reachable_within_universe: "reachable st \<Longrightarrow> within_universe st"
proof (induction rule: reachable.induct)
  case (fresh h w)
  show ?case by (simp add: within_universe_def kb_elems_def init_ai_def)
next
  case (observe st cell n cnt st')
  have "within_universe (with_new_sentence cell cnt st)"
    using within_universe_with_new_sentence [OF observe.IH observe.hyps(2), of cnt]
      with_new_sentence_dims [of cell cnt st]
    by (auto simp: within_universe_def)
  moreover have "evolves (with_new_sentence cell cnt st) st'"
    using observe.hyps(3) unfolding add_knowledge_def by (rule evolves_inference_pass)
  ultimately show ?case by (rule within_universe_evolves)
next
  case (marked_safe st x)
  from marked_safe.IH evolves_mark_safe show ?case by (rule within_universe_evolves)
next
  case (marked_mine st x)
  from marked_mine.IH evolves_mark_mine show ?case by (rule within_universe_evolves)
qed

lemma finite_universe: "finite (universe h w)"
  by (simp add: universe_def)

lemma twice_le_power2: "0 < n \<Longrightarrow> 2 * n \<le> (2::nat) ^ n"
proof (induction n)
  case 0
  then show ?case by simp
next
  case (Suc n)
  show ?case
  proof (cases "n = 0")
    case True
    then show ?thesis by simp
  next
    case False
    then have "2 * n \<le> (2::nat) ^ n" using Suc.IH by simp
    moreover have "2 \<le> 2 * n" using False by simp
    ultimately show ?thesis by simp
  qed
qed

lemma card_universe:
  assumes "0 < h" "0 < w"
  shows "card (universe h w) \<le> 2 ^ nat (h * w)"
proof -
  have "card ((\<lambda>(r, c). Cell r c) ` ({0..<h} \<times> {0..<w})) \<le> card ({0..<h} \<times> {0..<w})"
    by (rule card_image_le) simp
  then have a: "card ((\<lambda>(r, c). Cell r c) ` ({0..<h} \<times> {0..<w})) \<le> nat h * nat w"
    by (simp add: card_cartesian_product)
  have b: "card (Scalar ` {0..<max h w}) \<le> nat (max h w)"
    using card_image_le [of "{0..<max h w}" Scalar] by simp
  have "card (universe h w) \<le> nat h * nat w + nat (max h w)"
    unfolding universe_def using a b card_Un_le [of "(\<lambda>(r, c). Cell r c) ` ({0..<h} \<times> {0..<w})" "Scalar ` {0..<max h w}"]
    by linarith
  moreover have "nat (max h w) \<le> nat h * nat w"
  proof -
    have "nat h \<le> nat h * nat w" "nat w \<le> nat h * nat w" using assms by simp_all
    then show ?thesis by (cases "h \<le> w") (simp_all add: max_def)
  qed
  moreover have "nat h * nat w = nat (h * w)" using assms by (simp add: nat_mult_distrib)
  moreover have "0 < nat (h * w)" using assms by simp
  ultimately have "card (universe h w) \<le> 2 * nat (h * w)" by simp
  also have "\<dots> \<le> 2 ^ nat (h * w)" using \<open>0 < nat (h * w)\<close> by (rule twice_le_power2)
  finally show ?thesis .
qed

lemma cell_in_universe: "in_bounds st cell \<Longrightarrow> cell_elem cell \<in> universe (height st) (width st)"
  by (cases cell) (auto simp: in_bounds_def cell_elem_def universe_def)

lemma reachable_card_bound:
  assumes r: "reachable st" and b: "in_bounds st cell"
  shows "card (kb_elems (with_new_sentence cell cnt st)) < 2 ^ nat (height st * width st)"
proof -
  let ?U = "universe (height st) (width st)"
  have "kb_elems (with_new_sentence cell cnt st) \<subseteq> ?U - {cell_elem cell}"
    using reachable_within_universe [OF r] b by (rule within_universe_with_new_sentence)
  then have "card (kb_elems (with_new_sentence cell cnt st)) \<le> card (?U - {cell_elem cell})"
    by (intro card_mono) (simp_all add: finite_universe)
  also have "\<dots> < card ?U"
    using cell_in_universe [OF b] by (intro card_Diff1_less) (simp_all add: finite_universe)
  also have "\<dots> \<le> 2 ^ nat (height st * width st)"
    using b by (intro card_universe) (auto simp: in_bounds_def)
  finally show ?thesis .
qed

text \<open>
  Termination. For every state that observations and markings can reach on a board,
  and every board cell, \<^verbatim>\<open>add_knowledge\<close> returns. The program has no loop around its
  inference pass; what repeats is \<^verbatim>\<open>check_knowledge\<close> calling itself after each marking. The
  fuel of the model is the number of nested activations of \<^verbatim>\<open>check_knowledge\<close> that are
  allowed, and \<open>2 ^ (height * width)\<close> is enough: every nested activation follows the
  removal of a member from all sentences, and a reachable knowledge base holds fewer
  members than that. This bounds the depth of the recursion, not the number of sweeps.
  (\<open>add_knowledge_defined\<close> gives termination from any state whatever, with the number of
  members as the bound.)
\<close>

theorem observe_terminates:
  assumes "reachable st" and "in_bounds st cell"
  shows "\<exists>st'. add_knowledge (2 ^ nat (height st * width st)) cell cnt st = Some st'"
  using reachable_card_bound [OF assms] by (rule add_knowledge_defined)

theorem observe_terminates_witness:
  "reachable (init_ai 2 2) \<and> in_bounds (init_ai 2 2) (0, 1)
   \<and> (\<exists>st'. add_knowledge (2 ^ nat (height (init_ai 2 2) * width (init_ai 2 2))) (0, 1) 1
             (init_ai 2 2) = Some st')"
proof -
  have r: "reachable (init_ai 2 2)" by (rule reachable.fresh)
  have b: "in_bounds (init_ai 2 2) (0, 1)" by (simp add: in_bounds_def init_ai_def)
  from observe_terminates [OF r b, of 1] r b show ?thesis by blast
qed

text \<open>The counting version computes the same states as \<open>check_knowledge\<close>.\<close>

lemma mark_loop_counted_fst:
  assumes "\<And>sk. map_option fst (rec_c sk) = rec (fst sk)"
  shows "map_option fst (mark_loop_counted mark rec_c xs sk) = mark_loop mark rec xs (fst sk)"
proof (induction xs arbitrary: sk)
  case Nil
  show ?case by simp
next
  case (Cons x xs)
  show ?case
  proof (cases "rec_c (mark x (fst sk), snd sk)")
    case None
    then have "rec (mark x (fst sk)) = None"
      using assms [of "(mark x (fst sk), snd sk)"] by simp
    then show ?thesis using None by simp
  next
    case (Some sk')
    then have "rec (mark x (fst sk)) = Some (fst sk')"
      using assms [of "(mark x (fst sk), snd sk)"] by simp
    then show ?thesis using Some Cons.IH [of sk'] by simp
  qed
qed

lemma sweep_step_counted_fst:
  assumes "\<And>sk. map_option fst (rec_c sk) = rec (fst sk)"
  shows "map_option fst (sweep_step_counted rec_c s sk) = sweep_step rec s (fst sk)"
proof -
  let ?sk1 = "(purge_empty s (fst sk), snd sk)"
  let ?a = "if truthy (known_mines s)
            then mark_loop_counted mark_mine rec_c (members (known_mines s)) ?sk1 else Some ?sk1"
  let ?b = "if truthy (known_mines s)
            then mark_loop mark_mine rec (members (known_mines s)) (purge_empty s (fst sk))
            else Some (purge_empty s (fst sk))"
  have ab: "map_option fst ?a = ?b"
    using mark_loop_counted_fst [of rec_c rec mark_mine "members (known_mines s)" ?sk1, OF assms]
    by simp
  show ?thesis
  proof (cases ?a)
    case None
    then have "?b = None" using ab by simp
    then show ?thesis using None by (simp add: sweep_step_counted_def sweep_step_def Let_def)
  next
    case (Some sk2)
    then have b: "?b = Some (fst sk2)" using ab by simp
    have "map_option fst (if truthy (known_safes s)
            then mark_loop_counted mark_safe rec_c (members (known_safes s)) sk2 else Some sk2)
        = (if truthy (known_safes s)
            then mark_loop mark_safe rec (members (known_safes s)) (fst sk2) else Some (fst sk2))"
      using mark_loop_counted_fst [of rec_c rec mark_safe "members (known_safes s)" sk2, OF assms]
      by simp
    then show ?thesis using Some b by (simp add: sweep_step_counted_def sweep_step_def Let_def)
  qed
qed

lemma sweep_counted_fst:
  assumes "\<And>sk. map_option fst (rec_c sk) = rec (fst sk)"
  shows "map_option fst (sweep_counted rec_c ss sk) = sweep rec ss (fst sk)"
proof (induction ss arbitrary: sk)
  case Nil
  show ?case by simp
next
  case (Cons s ss)
  show ?case
  proof (cases "sweep_step_counted rec_c s sk")
    case None
    then have "sweep_step rec s (fst sk) = None"
      using sweep_step_counted_fst [of rec_c rec s sk, OF assms] by simp
    then show ?thesis using None by simp
  next
    case (Some sk')
    then have "sweep_step rec s (fst sk) = Some (fst sk')"
      using sweep_step_counted_fst [of rec_c rec s sk, OF assms] by simp
    then show ?thesis using Some Cons.IH [of sk'] by simp
  qed
qed

lemma check_knowledge_counted_fst:
  "map_option fst (check_knowledge_counted n sk) = check_knowledge n (fst sk)"
proof (induction n arbitrary: sk)
  case 0
  show ?case by simp
next
  case (Suc n)
  show ?case
    using sweep_counted_fst [of "check_knowledge_counted n" "check_knowledge n"
        "knowledge (fst sk)" "(fst sk, Suc (snd sk))", OF Suc.IH]
    by simp
qed

text \<open>
  C6 (fails on the code). The number of sweeps of one observation should not exceed the
  number of subsets of the board. On a fresh 1 by 2 board, which has 4 subsets, observing
  (0,1) with count 0 builds the sentence \<open>{0, 1, (0,0)} = 0\<close>: three members instead of
  the one neighbour, because of the integers that \<^verbatim>\<open>set(cell)\<close> leaves among the neighbours.
  \<^verbatim>\<open>check_knowledge\<close> sweeps again after each marking, 7 sweeps in all. The call does
  return.
\<close>

theorem observe_sweeps_exceed_subsets:
  "add_knowledge 4 (0, 1) 0 (init_ai 1 2) =
     Some \<lparr>height = 1, width = 2, moves_made = [Cell 0 1], mines = [],
           safes = [Cell 0 1, Scalar 0, Scalar 1, Cell 0 0], knowledge = []\<rparr>
   \<and> observe_sweeps 4 (0, 1) 0 (init_ai 1 2) = Some 7
   \<and> (2::nat) ^ nat (height (init_ai 1 2) * width (init_ai 1 2)) = 4"
  by code_simp

section \<open>Repeating the inference pass\<close>

text \<open>
  Whatever \<^verbatim>\<open>check_knowledge\<close> returns has only settled sentences: a sweep that marks
  nothing removes exactly the empty sentences, and a sweep that marks something ends
  with the result of a nested call, after which it finds nothing left to remove.
\<close>

lemma settled_not_truthy:
  "settled s \<Longrightarrow> \<not> truthy (known_mines s) \<and> \<not> truthy (known_safes s)"
  by (simp add: settled_def truthy_def known_mines_def known_safes_def)

lemma unsettled_truthy:
  "cells s \<noteq> [] \<Longrightarrow> \<not> settled s \<Longrightarrow> truthy (known_mines s) \<or> truthy (known_safes s)"
  by (auto simp: settled_def truthy_def known_mines_def known_safes_def)

lemma empty_not_truthy:
  "cells s = [] \<Longrightarrow> \<not> truthy (known_mines s) \<and> \<not> truthy (known_safes s)"
  by (simp add: truthy_def known_mines_def known_safes_def)

lemma list_remove_no_match:
  "cells s = [] \<Longrightarrow> list_all settled ks \<Longrightarrow> list_remove s ks = None"
  by (induction ks) (auto simp: settled_def sentence_eq_def)

lemma list_remove_after_settled:
  "cells s = [] \<Longrightarrow> list_all settled P \<Longrightarrow> list_remove s (P @ s # ss) = Some (P @ ss)"
  by (induction P) (auto simp: settled_def sentence_eq_def)

lemma purge_empty_all_settled: "all_settled st \<Longrightarrow> purge_empty s st = st"
  by (simp add: purge_empty_def all_settled_def list_remove_no_match)

lemma sweep_step_settled: "settled s \<Longrightarrow> sweep_step rec s st = Some st"
  using settled_not_truthy [of s]
  by (simp add: sweep_step_def Let_def purge_empty_def settled_def)

lemma sweep_settled: "list_all settled ss \<Longrightarrow> sweep rec ss st = Some st"
  by (induction ss) (simp_all add: sweep_step_settled)

lemma check_knowledge_all_settled_noop: "all_settled st \<Longrightarrow> check_knowledge (Suc n) st = Some st"
  by (simp add: all_settled_def sweep_settled)

lemma mark_loop_all_settled:
  assumes rec: "\<And>s s'. rec s = Some s' \<Longrightarrow> all_settled s'"
  shows "all_settled st \<or> xs \<noteq> [] \<Longrightarrow> mark_loop mark rec xs st = Some st' \<Longrightarrow> all_settled st'"
proof (induction xs arbitrary: st)
  case Nil
  then show ?case by simp
next
  case (Cons x xs)
  then obtain s1 where s1: "rec (mark x st) = Some s1" "mark_loop mark rec xs s1 = Some st'"
    by (auto split: option.splits)
  have "all_settled s1" using s1(1) by (rule rec)
  then have "all_settled s1 \<or> xs \<noteq> []" by simp
  then show ?case using s1(2) by (rule Cons.IH)
qed

lemma sweep_step_all_settled:
  assumes rec: "\<And>s s'. rec s = Some s' \<Longrightarrow> all_settled s'"
    and st: "all_settled st \<or> (cells s \<noteq> [] \<and> \<not> settled s)"
    and step: "sweep_step rec s st = Some st'"
  shows "all_settled st'"
proof -
  let ?st1 = "purge_empty s st"
  have p: "all_settled ?st1 \<or> (cells s \<noteq> [] \<and> \<not> settled s)"
    using st purge_empty_all_settled [of st s] by auto
  obtain st2 where
    a: "(if truthy (known_mines s) then mark_loop mark_mine rec (members (known_mines s)) ?st1
         else Some ?st1) = Some st2"
    and b: "(if truthy (known_safes s) then mark_loop mark_safe rec (members (known_safes s)) st2
         else Some st2) = Some st'"
    using step unfolding sweep_step_def Let_def by (auto split: option.splits)
  show ?thesis
  proof (cases "truthy (known_mines s)")
    case True
    then have "mark_loop mark_mine rec (cells s) ?st1 = Some st2" "cells s \<noteq> []"
      using a truthy_known_mines [of s] by auto
    then have s2: "all_settled st2"
      using mark_loop_all_settled [of rec "?st1" "cells s" mark_mine st2, OF rec] by simp
    show ?thesis
    proof (cases "truthy (known_safes s)")
      case True
      then show ?thesis
        using b s2 mark_loop_all_settled [of rec st2 "members (known_safes s)" mark_safe st', OF rec]
        by simp
    next
      case False
      then show ?thesis using b s2 by simp
    qed
  next
    case False
    then have e: "st2 = ?st1" using a by simp
    show ?thesis
    proof (cases "truthy (known_safes s)")
      case True
      then have "mark_loop mark_safe rec (cells s) st2 = Some st'" "cells s \<noteq> []"
        using b truthy_known_safes [of s] by auto
      then show ?thesis
        using mark_loop_all_settled [of rec st2 "cells s" mark_safe st', OF rec] by simp
    next
      case nosafe: False
      then have "st' = ?st1" using b e by simp
      moreover have "all_settled ?st1"
        using p False nosafe unsettled_truthy [of s] by auto
      ultimately show ?thesis by simp
    qed
  qed
qed

lemma sweep_all_settled:
  assumes rec: "\<And>s s'. rec s = Some s' \<Longrightarrow> all_settled s'"
  shows "all_settled st \<Longrightarrow> sweep rec ss st = Some st' \<Longrightarrow> all_settled st'"
proof (induction ss arbitrary: st)
  case Nil
  then show ?case by simp
next
  case (Cons s ss)
  then obtain st1 where s1: "sweep_step rec s st = Some st1" "sweep rec ss st1 = Some st'"
    by (auto split: option.splits)
  have "all_settled st1"
    using sweep_step_all_settled [of rec st s st1, OF rec _ s1(1)] Cons.prems(1) by simp
  then show ?case using s1(2) by (rule Cons.IH)
qed

lemma sweep_all_settled_first:
  assumes rec: "\<And>s s'. rec s = Some s' \<Longrightarrow> all_settled s'"
  shows "knowledge st = P @ ss \<Longrightarrow> list_all settled P \<Longrightarrow> sweep rec ss st = Some st'
         \<Longrightarrow> all_settled st'"
proof (induction ss arbitrary: st P)
  case Nil
  then show ?case by (simp add: all_settled_def)
next
  case (Cons s ss)
  obtain st1 where s1: "sweep_step rec s st = Some st1" "sweep rec ss st1 = Some st'"
    using Cons.prems(3) by (auto split: option.splits)
  show ?case
  proof (cases "cells s = []")
    case True
    have "list_remove s (knowledge st) = Some (P @ ss)"
      using Cons.prems(1,2) True by (simp add: list_remove_after_settled)
    then have "purge_empty s st = st\<lparr>knowledge := P @ ss\<rparr>"
      using True by (simp add: purge_empty_def)
    then have "st1 = st\<lparr>knowledge := P @ ss\<rparr>"
      using s1(1) empty_not_truthy [OF True] by (simp add: sweep_step_def Let_def)
    then have "knowledge st1 = P @ ss" by simp
    then show ?thesis using Cons.prems(2) s1(2) by (rule Cons.IH)
  next
    case False
    show ?thesis
    proof (cases "settled s")
      case True
      then have "st1 = st" using s1(1) by (simp add: sweep_step_settled)
      then have "knowledge st1 = (P @ [s]) @ ss" using Cons.prems(1) by simp
      moreover have "list_all settled (P @ [s])" using Cons.prems(2) True by simp
      ultimately show ?thesis using s1(2) by (rule Cons.IH)
    next
      case unsettled: False
      have "all_settled st1"
        using sweep_step_all_settled [of rec st s st1, OF rec _ s1(1)] False unsettled by simp
      with rec show ?thesis using s1(2) by (rule sweep_all_settled)
    qed
  qed
qed

lemma check_knowledge_all_settled: "check_knowledge n st = Some st' \<Longrightarrow> all_settled st'"
proof (induction n arbitrary: st st')
  case 0
  then show ?case by simp
next
  case (Suc n)
  have a: "knowledge st = [] @ knowledge st" by simp
  have b: "list_all settled []" by simp
  have c: "sweep (check_knowledge n) (knowledge st) st = Some st'" using Suc.prems by simp
  from Suc.IH a b c show ?case by (rule sweep_all_settled_first)
qed


text \<open>
  C7 (fails on the code). A second run of the pass of \<^verbatim>\<open>add_knowledge\<close>
  (\<^verbatim>\<open>check_knowledge\<close>, then \<^verbatim>\<open>inference\<close>) should change nothing. From \<open>{A,B} = 1\<close> and
  \<open>{A,B,C} = 2\<close> on a 1 by 3 board the first pass marks \<open>C\<close> as a mine, and the chained
  assignment of \<^verbatim>\<open>inference\<close> overwrites the counts, so that the pass ends with two sentences
  \<open>{A,B} = 0\<close> whose cells are not yet marked; the second pass marks \<open>A\<close> and \<open>B\<close> safe and
  empties the knowledge base.
\<close>

theorem inference_pass_not_idempotent:
  "inference_pass 5 ((init_ai 1 3)\<lparr>knowledge :=
       [Sentence [Cell 0 0, Cell 0 1] 1, Sentence [Cell 0 0, Cell 0 1, Cell 0 2] 2]\<rparr>)
     = Some \<lparr>height = 1, width = 3, moves_made = [], mines = [Cell 0 2], safes = [],
             knowledge = [\<lparr>cells = [Cell 0 0, Cell 0 1], count = 0\<rparr>,
                          \<lparr>cells = [Cell 0 0, Cell 0 1], count = 0\<rparr>]\<rparr>
   \<and> inference_pass 5 \<lparr>height = 1, width = 3, moves_made = [], mines = [Cell 0 2], safes = [],
             knowledge = [\<lparr>cells = [Cell 0 0, Cell 0 1], count = 0\<rparr>,
                          \<lparr>cells = [Cell 0 0, Cell 0 1], count = 0\<rparr>]\<rparr>
     = Some \<lparr>height = 1, width = 3, moves_made = [], mines = [Cell 0 2],
             safes = [Cell 0 0, Cell 0 1], knowledge = []\<rparr>"
  by code_simp

text \<open>
  The state that three truthful observations reach on the 2 by 2 board above is changed
  by a further pass as well: the pass empties the knowledge base.
\<close>

lemma inference_pass_changes_reachable_state:
  "map_option knowledge (inference_pass 5
       \<lparr>height = 2, width = 2, moves_made = [Cell 0 0, Cell 0 1, Cell 1 0],
        mines = [Cell 0 1], safes = [Cell 0 0, Cell 0 1, Cell 1 0],
        knowledge =
          [\<lparr>cells = [Scalar 0, Cell 1 1], count = 1\<rparr>,
           \<lparr>cells = [Scalar 0, Scalar 1, Cell 0 0, Cell 1 1], count = 0\<rparr>,
           \<lparr>cells = [Scalar 1, Scalar 0, Cell 0 0, Cell 1 1], count = 0\<rparr>]\<rparr>) = Some []"
  by code_simp

text \<open>
  The sweep \<^verbatim>\<open>check_knowledge\<close> alone is idempotent: the state it returns has only
  settled sentences, and running it again, with any fuel, returns that state unchanged.
\<close>

theorem check_knowledge_idempotent:
  assumes "check_knowledge n st = Some st'" and "0 < m"
  shows "check_knowledge m st' = Some st'"
proof -
  obtain k where "m = Suc k" using assms(2) by (cases m) auto
  then show ?thesis
    using check_knowledge_all_settled [OF assms(1)] by (simp only: check_knowledge_all_settled_noop)
qed

theorem check_knowledge_idempotent_witness:
  "check_knowledge 3 ((init_ai 1 3)\<lparr>knowledge := [Sentence [Cell 0 0, Cell 0 1] 2]\<rparr>)
     = Some \<lparr>height = 1, width = 3, moves_made = [], mines = [Cell 0 0, Cell 0 1],
             safes = [], knowledge = []\<rparr>
   \<and> (0::nat) < 1
   \<and> check_knowledge 1 \<lparr>height = 1, width = 3, moves_made = [], mines = [Cell 0 0, Cell 0 1],
             safes = [], knowledge = []\<rparr>
     = Some \<lparr>height = 1, width = 3, moves_made = [], mines = [Cell 0 0, Cell 0 1],
             safes = [], knowledge = []\<rparr>"
proof -
  have a: "check_knowledge 3 ((init_ai 1 3)\<lparr>knowledge := [Sentence [Cell 0 0, Cell 0 1] 2]\<rparr>)
     = Some \<lparr>height = 1, width = 3, moves_made = [], mines = [Cell 0 0, Cell 0 1],
             safes = [], knowledge = []\<rparr>"
    by code_simp
  have b: "(0::nat) < 1" by simp
  from check_knowledge_idempotent [OF a b] a b show ?thesis by blast
qed

section \<open>Monotonicity of \<open>safes\<close> and \<open>mines\<close>\<close>

lemma mark_loop_mono:
  assumes "\<And>s s'. rec s = Some s' \<Longrightarrow> rec' s = Some s'"
  shows "mark_loop mark rec xs st = Some st' \<Longrightarrow> mark_loop mark rec' xs st = Some st'"
proof (induction xs arbitrary: st)
  case Nil
  then show ?case by simp
next
  case (Cons x xs)
  then obtain s1 where s1: "rec (mark x st) = Some s1" "mark_loop mark rec xs s1 = Some st'"
    by (auto split: option.splits)
  from assms [OF s1(1)] Cons.IH [OF s1(2)] show ?case by simp
qed

lemma sweep_step_mono:
  assumes "\<And>s s'. rec s = Some s' \<Longrightarrow> rec' s = Some s'"
    and "sweep_step rec s st = Some st'"
  shows "sweep_step rec' s st = Some st'"
proof -
  let ?st1 = "purge_empty s st"
  obtain st2 where
    a: "(if truthy (known_mines s) then mark_loop mark_mine rec (members (known_mines s)) ?st1
         else Some ?st1) = Some st2"
    and b: "(if truthy (known_safes s) then mark_loop mark_safe rec (members (known_safes s)) st2
         else Some st2) = Some st'"
    using assms(2) unfolding sweep_step_def Let_def by (auto split: option.splits)
  have a': "(if truthy (known_mines s) then mark_loop mark_mine rec' (members (known_mines s)) ?st1
         else Some ?st1) = Some st2"
    using a mark_loop_mono [of rec rec' mark_mine, OF assms(1)] by (auto split: if_splits)
  have b': "(if truthy (known_safes s) then mark_loop mark_safe rec' (members (known_safes s)) st2
         else Some st2) = Some st'"
    using b mark_loop_mono [of rec rec' mark_safe, OF assms(1)] by (auto split: if_splits)
  show ?thesis using a' b' by (simp add: sweep_step_def Let_def)
qed

lemma sweep_mono:
  assumes "\<And>s s'. rec s = Some s' \<Longrightarrow> rec' s = Some s'"
  shows "sweep rec ss st = Some st' \<Longrightarrow> sweep rec' ss st = Some st'"
proof (induction ss arbitrary: st)
  case Nil
  then show ?case by simp
next
  case (Cons s ss)
  then obtain st1 where s1: "sweep_step rec s st = Some st1" "sweep rec ss st1 = Some st'"
    by (auto split: option.splits)
  from sweep_step_mono [of rec rec', OF assms s1(1)] Cons.IH [OF s1(2)] show ?case by simp
qed

lemma check_knowledge_Suc: "check_knowledge n st = Some st' \<Longrightarrow> check_knowledge (Suc n) st = Some st'"
proof (induction n arbitrary: st st')
  case 0
  then show ?case by simp
next
  case (Suc n)
  from Suc.prems have "sweep (check_knowledge n) (knowledge st) st = Some st'" by simp
  then have "sweep (check_knowledge (Suc n)) (knowledge st) st = Some st'"
    using Suc.IH by (rule sweep_mono [rotated])
  then show ?case by simp
qed

lemma check_knowledge_mono:
  "check_knowledge n st = Some st' \<Longrightarrow> n \<le> m \<Longrightarrow> check_knowledge m st = Some st'"
  by (induction m) (auto simp: le_Suc_eq dest: check_knowledge_Suc simp del: check_knowledge.simps)

lemma apply_op_mono: "apply_op n op st = Some st' \<Longrightarrow> n \<le> m \<Longrightarrow> apply_op m op st = Some st'"
  by (cases op) (auto simp: add_knowledge_def inference_pass_def split: option.splits
      dest: check_knowledge_mono)

lemma run_mono: "run n ops st = Some st' \<Longrightarrow> n \<le> m \<Longrightarrow> run m ops st = Some st'"
proof (induction ops arbitrary: st)
  case Nil
  then show ?case by simp
next
  case (Cons op ops)
  then obtain s1 where s1: "apply_op n op st = Some s1" "run n ops s1 = Some st'"
    by (auto split: option.splits)
  from apply_op_mono [OF s1(1) Cons.prems(2)] Cons.IH [OF s1(2) Cons.prems(2)]
  show ?case by simp
qed

lemma apply_op_defined: "\<exists>n st'. apply_op n op st = Some st'"
proof (cases op)
  case (Observe cell cnt)
  then show ?thesis
    using add_knowledge_defined [of cell cnt st "Suc (card (kb_elems (with_new_sentence cell cnt st)))"]
    by auto
qed simp_all

lemma run_defined: "\<exists>n st'. run n ops st = Some st'"
proof (induction ops arbitrary: st)
  case Nil
  show ?case by simp
next
  case (Cons op ops)
  obtain n1 s1 where a: "apply_op n1 op st = Some s1" using apply_op_defined by blast
  obtain n2 st' where b: "run n2 ops s1 = Some st'" using Cons.IH by blast
  have "apply_op (max n1 n2) op st = Some s1" using a by (rule apply_op_mono) simp
  moreover have "run (max n1 n2) ops s1 = Some st'" using b by (rule run_mono) simp
  ultimately have "run (max n1 n2) (op # ops) st = Some st'" by simp
  then show ?case by blast
qed

lemma apply_op_grows:
  "apply_op n op st = Some st' \<Longrightarrow>
     set (safes st) \<subseteq> set (safes st') \<and> set (mines st) \<subseteq> set (mines st')"
proof (cases op)
  case (Observe cell cnt)
  assume "apply_op n op st = Some st'"
  then have "evolves (with_new_sentence cell cnt st) st'"
    using Observe by (simp add: add_knowledge_def evolves_inference_pass)
  moreover have "set (safes st) \<subseteq> set (safes (with_new_sentence cell cnt st))
      \<and> mines (with_new_sentence cell cnt st) = mines st"
    by (auto simp: with_new_sentence_def Let_def mark_safe_def set_set_add)
  ultimately show ?thesis by (auto simp: evolves_def)
next
  case (MarkSafe x)
  assume "apply_op n op st = Some st'"
  then show ?thesis using MarkSafe evolves_mark_safe [of st x] by (auto simp: evolves_def)
next
  case (MarkMine x)
  assume "apply_op n op st = Some st'"
  then show ?thesis using MarkMine evolves_mark_mine [of st x] by (auto simp: evolves_def)
qed

lemma run_grows:
  "run n ops st = Some st' \<Longrightarrow>
     set (safes st) \<subseteq> set (safes st') \<and> set (mines st) \<subseteq> set (mines st')"
proof (induction ops arbitrary: st)
  case Nil
  then show ?case by simp
next
  case (Cons op ops)
  then obtain s1 where s1: "apply_op n op st = Some s1" "run n ops s1 = Some st'"
    by (auto split: option.splits)
  from apply_op_grows [OF s1(1)] Cons.IH [OF s1(2)] show ?case by blast
qed

text \<open>
  C8. Every sequence of observations and markings runs to completion (with enough
  fuel for the recursion of \<^verbatim>\<open>check_knowledge\<close>), and the state it ends in holds every
  member that \<open>safes\<close> and \<open>mines\<close> held at the start. As the start state is arbitrary,
  this covers every later point of a longer sequence.
\<close>

theorem safes_mines_only_grow:
  "(\<exists>n st'. run n ops st = Some st')
   \<and> (\<forall>n st'. run n ops st = Some st' \<longrightarrow>
         set (safes st) \<subseteq> set (safes st') \<and> set (mines st) \<subseteq> set (mines st'))"
  using run_defined [of ops st] run_grows [of _ ops st] by blast

theorem safes_mines_only_grow_witness:
  "run 5 [Observe (0, 0) 0, MarkMine (Cell 0 2)] ((init_ai 1 3)\<lparr>safes := [Cell 0 1]\<rparr>)
     = Some \<lparr>height = 1, width = 3, moves_made = [Cell 0 0], mines = [Cell 0 2],
             safes = [Cell 0 1, Cell 0 0, Scalar 0], knowledge = []\<rparr>
   \<and> set [Cell 0 1] \<subseteq> set [Cell 0 1, Cell 0 0, Scalar 0]
   \<and> set [] \<subseteq> set [Cell 0 2]"
proof -
  let ?st = "(init_ai 1 3)\<lparr>safes := [Cell 0 1]\<rparr>"
  let ?st' = "\<lparr>height = 1, width = 3, moves_made = [Cell 0 0], mines = [Cell 0 2],
             safes = [Cell 0 1, Cell 0 0, Scalar 0], knowledge = []\<rparr>"
  have a: "run 5 [Observe (0, 0) 0, MarkMine (Cell 0 2)] ?st = Some ?st'"
    by code_simp
  from safes_mines_only_grow [of "[Observe (0, 0) 0, MarkMine (Cell 0 2)]" ?st] a
  have "set (safes ?st) \<subseteq> set (safes ?st') \<and> set (mines ?st) \<subseteq> set (mines ?st')"
    by blast
  then show ?thesis using a by (simp add: init_ai_def)
qed

section \<open>Move selection\<close>

lemma first_tuple_None: "first_tuple xs = None \<longleftrightarrow> (\<forall>x \<in> set xs. \<not> is_tuple2 x)"
  by (induction xs) auto

lemma first_tuple_Some: "first_tuple xs = Some m \<Longrightarrow> is_tuple2 m \<and> m \<in> set xs"
  by (induction xs) (auto split: if_splits)

lemma is_tuple2_iff: "is_tuple2 x \<longleftrightarrow> (\<exists>r c. x = Cell r c)"
  by (cases x) auto

lemma make_safe_move_None:
  "make_safe_move st = None \<longleftrightarrow>
      (\<forall>r c. Cell r c \<in> set (safes st) \<longrightarrow> Cell r c \<in> set (moves_made st))"
  unfolding make_safe_move_def first_tuple_None set_diff_def
  by (auto simp: is_tuple2_iff)

lemma make_safe_move_Some:
  assumes "make_safe_move st = Some m"
  shows "(\<exists>r c. m = Cell r c) \<and> m \<in> set (safes st) \<and> m \<notin> set (moves_made st)"
proof -
  from assms have "is_tuple2 m \<and> m \<in> set (set_diff (safes st) (moves_made st))"
    unfolding make_safe_move_def by (rule first_tuple_Some)
  then show ?thesis
    by (simp add: is_tuple2_iff set_diff_def)
qed

text \<open>
  C9 (as stated, fails on the code). \<^verbatim>\<open>make_safe_move\<close> skips every member of
  \<^verbatim>\<open>safes - moves_made\<close> that is not a 2-tuple. After observing the only cell of a 1 by 1
  board with count 0, \<open>safes\<close> minus \<open>moves_made\<close> holds the integer 0, so the set is not
  empty, and yet no move is returned.
\<close>

theorem make_safe_move_counterexample:
  "add_knowledge 2 (0, 0) 0 (init_ai 1 1) =
     Some \<lparr>height = 1, width = 1, moves_made = [Cell 0 0], mines = [],
           safes = [Cell 0 0, Scalar 0], knowledge = []\<rparr>
   \<and> set_diff [Cell 0 0, Scalar 0] [Cell 0 0] = [Scalar 0]
   \<and> make_safe_move \<lparr>height = 1, width = 1, moves_made = [Cell 0 0], mines = [],
           safes = [Cell 0 0, Scalar 0], knowledge = []\<rparr> = None"
  by code_simp

text \<open>
  C9 (amended). \<^verbatim>\<open>make_safe_move\<close> returns nothing exactly when \<open>safes\<close> minus
  \<open>moves_made\<close> holds no 2-tuple, and whatever it returns is a 2-tuple that is in
  \<open>safes\<close> and not in \<open>moves_made\<close>.
\<close>

theorem make_safe_move_spec:
  "(make_safe_move st = None \<longleftrightarrow>
      (\<forall>r c. Cell r c \<in> set (safes st) \<longrightarrow> Cell r c \<in> set (moves_made st)))
   \<and> (\<forall>m. make_safe_move st = Some m \<longrightarrow>
         (\<exists>r c. m = Cell r c) \<and> m \<in> set (safes st) \<and> m \<notin> set (moves_made st))"
  using make_safe_move_None [of st] make_safe_move_Some [of st] by blast

theorem make_safe_move_spec_witness:
  "make_safe_move ((init_ai 2 2)\<lparr>moves_made := [Cell 0 0], safes := [Cell 0 0, Scalar 0, Cell 0 1]\<rparr>)
     = Some (Cell 0 1)
   \<and> Cell 0 1 \<in> set [Cell 0 0, Scalar 0, Cell 0 1] \<and> Cell 0 1 \<notin> set [Cell 0 0]
   \<and> make_safe_move ((init_ai 2 2)\<lparr>moves_made := [Cell 0 0], safes := [Cell 0 0, Scalar 0]\<rparr>) = None"
  using make_safe_move_spec [of "(init_ai 2 2)\<lparr>moves_made := [Cell 0 0], safes := [Cell 0 0, Scalar 0, Cell 0 1]\<rparr>"]
    make_safe_move_spec [of "(init_ai 2 2)\<lparr>moves_made := [Cell 0 0], safes := [Cell 0 0, Scalar 0]\<rparr>"]
  by (simp add: init_ai_def make_safe_move_def set_diff_def)

lemma randrange_ok: "0 < n \<Longrightarrow> \<exists>x. randrange raw n = Inr x \<and> 0 \<le> x \<and> x < n"
  by (simp add: randrange_def)

lemma random_loop_spec:
  assumes h: "0 < height st" and w: "0 < width st"
  shows "\<exists>res j. random_loop m tape k st = Inr (res, j) \<and> j \<le> k + m
     \<and> (case res of None \<Rightarrow> j = k + m
         | Some mv \<Rightarrow> \<exists>r c. mv = Cell r c \<and> 0 \<le> r \<and> r < height st \<and> 0 \<le> c \<and> c < width st
              \<and> mv \<notin> set (moves_made st) \<and> mv \<notin> set (mines st))
     \<and> ((\<forall>r c. 0 \<le> r \<and> r < height st \<and> 0 \<le> c \<and> c < width st \<longrightarrow>
            Cell r c \<in> set (moves_made st) \<or> Cell r c \<in> set (mines st)) \<longrightarrow> res = None)"
proof (induction m arbitrary: k)
  case 0
  show ?case by simp
next
  case (Suc m)
  obtain x where x: "randrange (fst (tape k)) (height st) = Inr x" "0 \<le> x" "x < height st"
    using randrange_ok [OF h] by blast
  obtain y where y: "randrange (snd (tape k)) (width st) = Inr y" "0 \<le> y" "y < width st"
    using randrange_ok [OF w] by blast
  show ?case
  proof (cases "Cell x y \<notin> set (moves_made st) \<and> Cell x y \<notin> set (mines st)")
    case True
    then show ?thesis using x y by auto
  next
    case False
    from Suc.IH [of "Suc k"] obtain res j where
      r: "random_loop m tape (Suc k) st = Inr (res, j)" "j \<le> Suc k + m"
        "(case res of None \<Rightarrow> j = Suc k + m
         | Some mv \<Rightarrow> \<exists>r c. mv = Cell r c \<and> 0 \<le> r \<and> r < height st \<and> 0 \<le> c \<and> c < width st
              \<and> mv \<notin> set (moves_made st) \<and> mv \<notin> set (mines st))"
        "((\<forall>r c. 0 \<le> r \<and> r < height st \<and> 0 \<le> c \<and> c < width st \<longrightarrow>
            Cell r c \<in> set (moves_made st) \<or> Cell r c \<in> set (mines st)) \<longrightarrow> res = None)"
      by blast
    have "random_loop (Suc m) tape k st = Inr (res, j)"
      using False x y r(1) by auto
    then show ?thesis using r by (auto split: option.splits)
  qed
qed

text \<open>
  C10. On a board (height and width not negative) \<^verbatim>\<open>make_random_move\<close> always returns,
  after at most \<open>width * height\<close> attempts, whatever numbers the generator produces; a
  move it returns is a board cell that is neither in \<open>moves_made\<close> nor in \<open>mines\<close>; and
  it returns nothing when every board cell is in one of the two sets.
\<close>

theorem make_random_move_spec:
  assumes "0 \<le> height st" and "0 \<le> width st"
  shows "\<exists>res attempts. make_random_move tape st = Inr (res, attempts)
     \<and> attempts \<le> nat (width st * height st)
     \<and> (\<forall>mv. res = Some mv \<longrightarrow>
           (\<exists>r c. mv = Cell r c \<and> 0 \<le> r \<and> r < height st \<and> 0 \<le> c \<and> c < width st)
           \<and> mv \<notin> set (moves_made st) \<and> mv \<notin> set (mines st))
     \<and> ((\<forall>r c. 0 \<le> r \<and> r < height st \<and> 0 \<le> c \<and> c < width st \<longrightarrow>
            Cell r c \<in> set (moves_made st) \<or> Cell r c \<in> set (mines st)) \<longrightarrow> res = None)"
proof (cases "0 < height st \<and> 0 < width st")
  case True
  then have h: "0 < height st" and w: "0 < width st" by simp_all
  from random_loop_spec [OF h w, of "nat (width st * height st)" tape 0]
  obtain res j where r: "random_loop (nat (width st * height st)) tape 0 st = Inr (res, j)"
    "j \<le> nat (width st * height st)"
    "(case res of None \<Rightarrow> j = 0 + nat (width st * height st)
      | Some mv \<Rightarrow> \<exists>r c. mv = Cell r c \<and> 0 \<le> r \<and> r < height st \<and> 0 \<le> c \<and> c < width st
           \<and> mv \<notin> set (moves_made st) \<and> mv \<notin> set (mines st))"
    "((\<forall>r c. 0 \<le> r \<and> r < height st \<and> 0 \<le> c \<and> c < width st \<longrightarrow>
         Cell r c \<in> set (moves_made st) \<or> Cell r c \<in> set (mines st)) \<longrightarrow> res = None)"
    by auto
  have "\<forall>mv. res = Some mv \<longrightarrow>
           (\<exists>r c. mv = Cell r c \<and> 0 \<le> r \<and> r < height st \<and> 0 \<le> c \<and> c < width st)
           \<and> mv \<notin> set (moves_made st) \<and> mv \<notin> set (mines st)"
    using r(3) by auto
  then show ?thesis using r(1,2,4) unfolding make_random_move_def by blast
next
  case False
  then have "height st = 0 \<or> width st = 0" using assms by auto
  then have "nat (width st * height st) = 0" by auto
  then have "make_random_move tape st = Inr (None, 0)" by (simp add: make_random_move_def)
  then show ?thesis by simp
qed

theorem make_random_move_spec_witness:
  "(0::int) \<le> 2
   \<and> make_random_move (\<lambda>k. (int k, int k))
        \<lparr>height = 2, width = 2, moves_made = [Cell 0 1], mines = [Cell 1 0], safes = [],
         knowledge = []\<rparr> = Inr (Some (Cell 0 0), 1)
   \<and> (1::nat) \<le> nat (2 * 2)
   \<and> Cell 0 0 \<notin> set [Cell 0 1] \<and> Cell 0 0 \<notin> set [Cell 1 0]"
proof -
  let ?st = "\<lparr>height = 2, width = 2, moves_made = [Cell 0 1], mines = [Cell 1 0], safes = [],
         knowledge = []\<rparr>"
  have h: "0 \<le> height ?st" and w: "0 \<le> width ?st" by simp_all
  have e: "make_random_move (\<lambda>k. (int k, int k)) ?st = Inr (Some (Cell 0 0), 1)"
    by code_simp
  from make_random_move_spec [OF h w, of "\<lambda>k. (int k, int k)"] e
  have "(1::nat) \<le> nat (width ?st * height ?st)
      \<and> Cell 0 0 \<notin> set (moves_made ?st) \<and> Cell 0 0 \<notin> set (mines ?st)"
    by auto
  then show ?thesis using e by simp
qed

end
